theory Spec2Isabelle
  imports Main
begin

section \<open>The data model of bellmanfloydAlgorithm.py\<close>

text \<open>
  A vertex is a Python \<open>str\<close>. The graph is a \<open>dict\<close> from a vertex to the list of its
  outgoing \<open>(neighbor, weight)\<close> pairs. Iteration over a dict follows insertion order, and
  the order decides which edge relaxes first and which error is met first, so the graph is
  an association list in insertion order; a dict holds each key once, which is
  \<open>distinct (map fst graph)\<close>. Iterating the keys and reading \<open>graph[start]\<close> for each is
  then iterating the entries of the list.

  The annotation of a weight is \<open>float\<close>, which Python does not enforce; the graph of
  the source itself holds integers, and the distance of the source starts as the integer
  \<open>0\<close>. Weights are modelled as integers, which Python adds and compares exactly, so the
  rounding of floating-point addition is outside the model. \<open>float('inf')\<close> is a value
  of its own: adding a weight to it gives \<open>inf\<close> again, every number is below it, and it
  is below nothing.
\<close>

type_synonym vertex = string
type_synonym edge = "vertex \<times> vertex \<times> int"
type_synonym graph = "(vertex \<times> (vertex \<times> int) list) list"

datatype dist = Fin int | Inf

fun dist_add :: "dist \<Rightarrow> int \<Rightarrow> dist" where
  "dist_add (Fin a) w = Fin (a + w)"
| "dist_add Inf w = Inf"

fun dist_less :: "dist \<Rightarrow> dist \<Rightarrow> bool" where
  "dist_less (Fin a) (Fin b) = (a < b)"
| "dist_less (Fin a) Inf = True"
| "dist_less Inf d = False"

text \<open>
  The two result dicts are looked up by key only, so they are maps. A missing key raises
  \<open>KeyError\<close> on a read and is inserted on a write. The \<open>ValueError\<close> is the one the
  source raises for a negative weight cycle.
\<close>

datatype error = KeyError | ValueError

type_synonym distances = "vertex \<rightharpoonup> dist"
type_synonym predecessors = "vertex \<rightharpoonup> vertex option"
type_synonym state = "distances \<times> predecessors"

section \<open>bellman_ford_algorithm\<close>

text \<open>\<open>edges = [(start, end, weight) for start in graph for end, weight in graph[start]]\<close>\<close>

definition edges_of :: "graph \<Rightarrow> edge list" where
  "edges_of graph =
     concat (map (\<lambda>(start, adj). map (\<lambda>(end, weight). (start, end, weight)) adj) graph)"

text \<open>
  The body of the inner loop for one edge. Both \<open>distances[start]\<close> and \<open>distances[end]\<close>
  are read before the comparison; the two stores cannot fail.
\<close>

fun relax_edge :: "edge \<Rightarrow> state \<Rightarrow> error + state" where
  "relax_edge (start, end, weight) (distances, predecessors) =
     (case distances start of
        None \<Rightarrow> Inl KeyError
      | Some ds \<Rightarrow>
          (case distances end of
             None \<Rightarrow> Inl KeyError
           | Some de \<Rightarrow>
               if dist_less (dist_add ds weight) de
               then Inr (distances(end \<mapsto> dist_add ds weight), predecessors(end \<mapsto> Some start))
               else Inr (distances, predecessors)))"

text \<open>\<open>for start, end, weight in edges: ...\<close>, one pass over the edge list.\<close>

fun relax_all :: "edge list \<Rightarrow> state \<Rightarrow> error + state" where
  "relax_all [] st = Inr st"
| "relax_all (e # es) st =
     (case relax_edge e st of Inl err \<Rightarrow> Inl err | Inr st' \<Rightarrow> relax_all es st')"

text \<open>\<open>for _ in range(n): ...\<close>, the outer loop.\<close>

fun relax_passes :: "nat \<Rightarrow> edge list \<Rightarrow> state \<Rightarrow> error + state" where
  "relax_passes 0 es st = Inr st"
| "relax_passes (Suc n) es st =
     (case relax_all es st of Inl err \<Rightarrow> Inl err | Inr st' \<Rightarrow> relax_passes n es st')"

text \<open>The final scan: the first edge that still relaxes raises \<open>ValueError\<close>.\<close>

fun check_edges :: "edge list \<Rightarrow> distances \<Rightarrow> error + unit" where
  "check_edges [] distances = Inr ()"
| "check_edges ((start, end, weight) # es) distances =
     (case distances start of
        None \<Rightarrow> Inl KeyError
      | Some ds \<Rightarrow>
          (case distances end of
             None \<Rightarrow> Inl KeyError
           | Some de \<Rightarrow>
               if dist_less (dist_add ds weight) de then Inl ValueError
               else check_edges es distances))"

text \<open>
  The initial dicts. \<open>distances[source] = 0\<close> is a store: it inserts \<open>source\<close> when the
  graph has no such key.
\<close>

definition init_distances :: "graph \<Rightarrow> vertex \<Rightarrow> distances" where
  "init_distances graph source = (map_of (map (\<lambda>v. (v, Inf)) (map fst graph)))(source \<mapsto> Fin 0)"

definition init_predecessors :: "graph \<Rightarrow> predecessors" where
  "init_predecessors graph = map_of (map (\<lambda>v. (v, None)) (map fst graph))"

text \<open>
  \<open>range(len(graph) - 1)\<close> is empty for the empty graph, as the truncating subtraction
  \<open>length graph - 1\<close> on \<open>nat\<close> gives.
\<close>

definition bellman_ford_algorithm :: "graph \<Rightarrow> vertex \<Rightarrow> error + state" where
  "bellman_ford_algorithm graph source =
     (let distances = init_distances graph source;
          predecessors = init_predecessors graph;
          edges = edges_of graph
      in case relax_passes (length graph - 1) edges (distances, predecessors) of
           Inl err \<Rightarrow> Inl err
         | Inr st \<Rightarrow>
             (case check_edges edges (fst st) of
                Inl err \<Rightarrow> Inl err
              | Inr u \<Rightarrow> Inr st))"

section \<open>reconstruct_path\<close>

text \<open>
  The \<open>while current is not None\<close> loop. It reads \<open>predecessors[current]\<close>, which raises
  \<open>KeyError\<close> for a missing key, and it runs forever on a cyclic chain: not returning is
  the value \<open>None\<close> of the outer option.
\<close>

partial_function (option) reconstruct_loop ::
  "predecessors \<Rightarrow> vertex option \<Rightarrow> vertex list \<Rightarrow> (error + vertex list) option" where
  "reconstruct_loop predecessors current path =
     (case current of
        None \<Rightarrow> Some (Inr path)
      | Some c \<Rightarrow>
          (case predecessors c of
             None \<Rightarrow> Some (Inl KeyError)
           | Some nxt \<Rightarrow> reconstruct_loop predecessors nxt (c # path)))"

definition reconstruct_path :: "predecessors \<Rightarrow> vertex \<Rightarrow> (error + vertex list) option" where
  "reconstruct_path predecessors target = reconstruct_loop predecessors (Some target) []"

section \<open>Walks, shortest paths and negative cycles\<close>

text \<open>
  A walk is a list of edges of the graph, each starting where the one before ends. Two
  vertices may be joined by several edges of different weights, so a walk names its
  edges, not only its vertices.
\<close>

fun walk :: "edge set \<Rightarrow> vertex \<Rightarrow> edge list \<Rightarrow> vertex \<Rightarrow> bool" where
  "walk E u [] v = (u = v)"
| "walk E u ((a, b, w) # es) v = (a = u \<and> (a, b, w) \<in> E \<and> walk E b es v)"

fun walk_weight :: "edge list \<Rightarrow> int" where
  "walk_weight [] = 0"
| "walk_weight ((a, b, w) # es) = w + walk_weight es"

definition target :: "edge \<Rightarrow> vertex" where
  "target e = fst (snd e)"




definition keys :: "graph \<Rightarrow> vertex set" where
  "keys graph = set (map fst graph)"





text \<open>No edge of \<open>E\<close> relaxes any more: both ends are present and the comparison fails.\<close>

definition settled :: "edge set \<Rightarrow> distances \<Rightarrow> bool" where
  "settled E d =
     (\<forall>(u, v, w) \<in> E. \<exists>du dv. d u = Some du \<and> d v = Some dv \<and> \<not> dist_less (dist_add du w) dv)"

text \<open>
  What every state of a run satisfies, whatever the graph: the source keeps a distance
  at most 0, and keeps its initial predecessor entry \<open>p0\<close> while that distance is 0; a
  recorded number is the weight of a walk from the source; a vertex still at infinity
  has no predecessor; a predecessor link lies along an edge that does not relax
  backwards; a vertex other than the source with a number has a predecessor.
\<close>

definition run_inv :: "edge set \<Rightarrow> vertex \<Rightarrow> vertex option option \<Rightarrow> state \<Rightarrow> bool" where
  "run_inv E s p0 st =
     (case st of (d, p) \<Rightarrow>
        (\<exists>x. d s = Some (Fin x) \<and> x \<le> 0 \<and> (x = 0 \<longrightarrow> p s = p0)) \<and>
        (\<forall>v x. d v = Some (Fin x) \<longrightarrow> (\<exists>es. walk E s es v \<and> walk_weight es = x)) \<and>
        (\<forall>v. d v = Some Inf \<longrightarrow> p v = Some None) \<and>
        (\<forall>v u. p v = Some (Some u) \<longrightarrow>
           (\<exists>a b w. d u = Some (Fin a) \<and> d v = Some (Fin b) \<and> (u, v, w) \<in> E \<and> a + w \<le> b)) \<and>
        (\<forall>v x. d v = Some (Fin x) \<and> v \<noteq> s \<longrightarrow> (\<exists>u. p v = Some (Some u))))"

text \<open>\<open>a \<le> b\<close> on distances, as Python compares a number or \<open>inf\<close> with another.\<close>

fun dist_le :: "dist \<Rightarrow> dist \<Rightarrow> bool" where
  "dist_le (Fin a) (Fin b) = (a \<le> b)"
| "dist_le d Inf = True"
| "dist_le Inf (Fin b) = False"

section \<open>Graphs of the source and of the specification's scenarios\<close>

text \<open>The graph of the \<open>__main__\<close> block, run there from source \<open>'A'\<close>.\<close>

definition sample_graph :: graph where
  "sample_graph =
     [(''A'', [(''B'', 3), (''C'', 5)]),
      (''B'', [(''C'', 2), (''D'', 6)]),
      (''C'', [(''B'', 1), (''D'', 4), (''E'', 6)]),
      (''D'', [(''E'', 2)]),
      (''E'', [(''A'', 3), (''D'', 7)])]"

text \<open>Scenario 4: vertex \<open>'C'\<close> is cut off from source \<open>'A'\<close>.\<close>

definition island_graph :: graph where
  "island_graph = [(''A'', [(''B'', 1)]), (''B'', []), (''C'', [])]"




text \<open>
  The distance a call reports for a vertex: \<open>distances[v]\<close> of the returned dict, and
  nothing when the call raised or the dict has no such key.
\<close>

definition returned_distance :: "error + state \<Rightarrow> vertex \<Rightarrow> dist option" where
  "returned_distance r v = (case r of Inl err \<Rightarrow> None | Inr st \<Rightarrow> fst st v)"


section \<open>Properties of the run\<close>

subsection \<open>Walks\<close>

lemma walk_append:
  "walk E u (es @ fs) v \<longleftrightarrow> (\<exists>m. walk E u es m \<and> walk E m fs v)"
  by (induction es arbitrary: u) auto

lemma walk_weight_append: "walk_weight (es @ fs) = walk_weight es + walk_weight fs"
  by (induction es) auto

lemma walk_snoc:
  "walk E s es u \<Longrightarrow> (u, v, w) \<in> E \<Longrightarrow> walk E s (es @ [(u, v, w)]) v"
  by (simp add: walk_append)

lemma walk_weight_snoc: "walk_weight (es @ [(u, v, w)]) = walk_weight es + w"
  by (simp add: walk_weight_append)

subsection \<open>One relaxation\<close>

lemma dist_less_add_Fin:
  "dist_less (dist_add ds w) de \<Longrightarrow> \<exists>a. ds = Fin a \<and> (de = Inf \<or> (\<exists>b. de = Fin b \<and> a + w < b))"
  by (cases ds; cases de) auto

lemma relax_edge_cases:
  assumes "relax_edge (u, v, w) (d, p) = Inr st'"
  obtains (same) "st' = (d, p)"
  | (fired) a where "d u = Some (Fin a)" "st' = (d(v \<mapsto> Fin (a + w)), p(v \<mapsto> Some u))"
      "d v = Some Inf \<or> (\<exists>b. d v = Some (Fin b) \<and> a + w < b)"
proof -
  from assms obtain ds de where ds: "d u = Some ds" and de: "d v = Some de"
    by (auto split: option.splits)
  show thesis
  proof (cases "dist_less (dist_add ds w) de")
    case False
    with assms ds de have "st' = (d, p)" by auto
    then show thesis by (rule same)
  next
    case True
    from dist_less_add_Fin[OF True] obtain a where a: "ds = Fin a"
      and b: "de = Inf \<or> (\<exists>b. de = Fin b \<and> a + w < b)" by blast
    from assms ds de True a have "st' = (d(v \<mapsto> Fin (a + w)), p(v \<mapsto> Some u))" by auto
    with ds de a b show thesis by (intro fired[of a]) auto
  qed
qed

lemma run_inv_relax_edge:
  assumes inv: "run_inv E s p0 st" and e: "e \<in> E" and r: "relax_edge e st = Inr st'"
  shows "run_inv E s p0 st'"
proof -
  obtain u v w where e_def: "e = (u, v, w)" by (cases e) auto
  obtain d p where st: "st = (d, p)" by (cases st) auto
  from r have r': "relax_edge (u, v, w) (d, p) = Inr st'" by (simp add: e_def st)
  from r' show ?thesis
  proof (cases rule: relax_edge_cases)
    case same
    with inv st show ?thesis by simp
  next
    case (fired a)
    from inv st obtain x where
      g1: "d s = Some (Fin x)" "x \<le> 0" "x = 0 \<longrightarrow> p s = p0" and
      g2: "\<And>v x. d v = Some (Fin x) \<Longrightarrow> \<exists>es. walk E s es v \<and> walk_weight es = x" and
      g3: "\<And>v. d v = Some Inf \<Longrightarrow> p v = Some None" and
      g4: "\<And>v u. p v = Some (Some u) \<Longrightarrow>
             \<exists>a b w. d u = Some (Fin a) \<and> d v = Some (Fin b) \<and> (u, v, w) \<in> E \<and> a + w \<le> b" and
      g5: "\<And>v x. d v = Some (Fin x) \<Longrightarrow> v \<noteq> s \<Longrightarrow> \<exists>u. p v = Some (Some u)"
      unfolding run_inv_def by auto
    let ?d = "d(v \<mapsto> Fin (a + w))" and ?p = "p(v \<mapsto> Some u)"
    have lower: "\<And>b. d v = Some (Fin b) \<Longrightarrow> a + w < b" using fired(3) by auto
    have h1: "\<exists>x. ?d s = Some (Fin x) \<and> x \<le> 0 \<and> (x = 0 \<longrightarrow> ?p s = p0)"
    proof (cases "v = s")
      case True
      with g1 lower have "a + w < x" by simp
      with g1 True show ?thesis by simp
    next
      case False
      with g1 show ?thesis by simp
    qed
    have h2: "\<exists>es. walk E s es y \<and> walk_weight es = z" if "?d y = Some (Fin z)" for y z
    proof (cases "y = v")
      case True
      with that have z: "z = a + w" by simp
      from g2[OF fired(1)] obtain es where "walk E s es u" "walk_weight es = a" by blast
      with e e_def have "walk E s (es @ [(u, v, w)]) v \<and> walk_weight (es @ [(u, v, w)]) = z"
        by (simp add: walk_snoc walk_weight_snoc z)
      with True show ?thesis by blast
    next
      case False
      with that g2 show ?thesis by simp
    qed
    have h3: "?p y = Some None" if "?d y = Some Inf" for y
      using that g3 by (cases "y = v") auto
    have h4: "\<exists>a b w. ?d z = Some (Fin a) \<and> ?d y = Some (Fin b) \<and> (z, y, w) \<in> E \<and> a + w \<le> b"
      if "?p y = Some (Some z)" for y z
    proof (cases "y = v")
      case True
      with that have zu: "z = u" by simp
      show ?thesis
      proof (cases "u = v")
        case True
        with fired(1) lower have "w < 0" by fastforce
        with True zu \<open>y = v\<close> e e_def show ?thesis by auto
      next
        case False
        with zu \<open>y = v\<close> fired(1) e e_def show ?thesis by auto
      qed
    next
      case False
      with that have "p y = Some (Some z)" by simp
      from g4[OF this] obtain a' b' w' where
        *: "d z = Some (Fin a')" "d y = Some (Fin b')" "(z, y, w') \<in> E" "a' + w' \<le> b'" by blast
      show ?thesis
      proof (cases "z = v")
        case True
        with * lower have "a + w < a'" by simp
        with * True False show ?thesis by (intro exI[of _ "a + w"] exI[of _ b'] exI[of _ w']) auto
      next
        case False
        with * \<open>y \<noteq> v\<close> show ?thesis by auto
      qed
    qed
    have h5: "\<exists>z. ?p y = Some (Some z)" if "?d y = Some (Fin x)" "y \<noteq> s" for y x
      using that g5 by (cases "y = v") auto
    from h1 h2 h3 h4 h5 show ?thesis
      unfolding run_inv_def fired(2) by (simp only: prod.case) blast
  qed
qed

subsection \<open>Lifting a step invariant over the loops\<close>

lemma relax_all_induct:
  assumes "relax_all es st = Inr st'" and "P st"
    and "\<And>e t t'. e \<in> set es \<Longrightarrow> P t \<Longrightarrow> relax_edge e t = Inr t' \<Longrightarrow> P t'"
  shows "P st'"
  using assms
proof (induction es arbitrary: st)
  case Nil
  then show ?case by simp
next
  case (Cons e es)
  from Cons.prems(1) obtain t where t: "relax_edge e st = Inr t" and rest: "relax_all es t = Inr st'"
    by (auto split: sum.splits)
  from Cons.prems(3)[OF _ Cons.prems(2) t] have "P t" by simp
  show ?case
    by (rule Cons.IH[OF rest \<open>P t\<close>]) (rule Cons.prems(3), simp_all)
qed

lemma relax_passes_induct:
  assumes "relax_passes n es st = Inr st'" and "P st"
    and "\<And>e t t'. e \<in> set es \<Longrightarrow> P t \<Longrightarrow> relax_edge e t = Inr t' \<Longrightarrow> P t'"
  shows "P st'"
  using assms
proof (induction n arbitrary: st)
  case 0
  then show ?case by simp
next
  case (Suc n)
  from Suc.prems(1) obtain t where t: "relax_all es st = Inr t" and rest: "relax_passes n es t = Inr st'"
    by (auto split: sum.splits)
  have "P t"
    by (rule relax_all_induct[where P = P, OF t Suc.prems(2)]) (rule Suc.prems(3))
  show ?case
    by (rule Suc.IH[OF rest \<open>P t\<close>]) (rule Suc.prems(3))
qed

subsection \<open>The initial state\<close>

lemma init_distances_apply:
  "init_distances g s v = (if v = s then Some (Fin 0) else if v \<in> keys g then Some Inf else None)"
proof -
  have "map_of (map (\<lambda>v. (v, Inf)) (map fst g)) v = (if v \<in> keys g then Some Inf else None)"
    unfolding keys_def by (induction g) auto
  then show ?thesis by (simp add: init_distances_def)
qed

lemma init_predecessors_apply:
  "init_predecessors g v = (if v \<in> keys g then Some None else None)"
  unfolding keys_def init_predecessors_def by (induction g) auto

lemma run_inv_init:
  "run_inv E s (init_predecessors g s) (init_distances g s, init_predecessors g)"
proof -
  have "walk E s [] s \<and> walk_weight [] = 0" by simp
  then have "\<exists>es. walk E s es s \<and> walk_weight es = 0" by blast
  then show ?thesis
    unfolding run_inv_def by (auto simp: init_distances_apply init_predecessors_apply split: if_splits)
qed

lemma run_inv_passes:
  assumes "relax_passes n es (init_distances g s, init_predecessors g) = Inr st"
    and "set es \<subseteq> E"
  shows "run_inv E s (init_predecessors g s) st"
  by (rule relax_passes_induct[where P = "run_inv E s (init_predecessors g s)", OF assms(1) run_inv_init])
     (rule run_inv_relax_edge, use assms(2) in auto)

subsection \<open>Distances only go down\<close>





subsection \<open>The final scan\<close>

lemma check_edges_Inr: "check_edges es d = Inr u \<longleftrightarrow> settled (set es) d"
proof (induction es)
  case Nil
  show ?case by (simp add: settled_def)
next
  case (Cons e es)
  obtain a b w where e: "e = (a, b, w)" by (cases e) auto
  have "settled (set (e # es)) d \<longleftrightarrow>
    (\<exists>du dv. d a = Some du \<and> d b = Some dv \<and> \<not> dist_less (dist_add du w) dv) \<and> settled (set es) d"
    unfolding settled_def e by auto
  with Cons.IH show ?case unfolding e by (auto split: option.splits)
qed


lemma check_edges_ValueError:
  "check_edges es d = Inl ValueError \<Longrightarrow>
     \<exists>(u, v, w) \<in> set es. \<exists>du dv. d u = Some du \<and> d v = Some dv \<and> dist_less (dist_add du w) dv"
proof (induction es)
  case Nil
  then show ?case by simp
next
  case (Cons e es)
  obtain a b w where e: "e = (a, b, w)" by (cases e) auto
  from Cons show ?case unfolding e by (auto split: option.splits if_splits)
qed



subsection \<open>Keys and lookups\<close>










subsection \<open>A successful call\<close>

lemma bellman_ford_Inr:
  "bellman_ford_algorithm g s = Inr st \<longleftrightarrow>
     relax_passes (length g - 1) (edges_of g) (init_distances g s, init_predecessors g) = Inr st \<and>
     settled (set (edges_of g)) (fst st)"
proof -
  have "(case check_edges es d of Inl err \<Rightarrow> Inl err | Inr u \<Rightarrow> Inr t) = Inr st \<longleftrightarrow>
      t = st \<and> settled (set es) d" for es d and t :: state
    using check_edges_Inr[of es d "()"] by (cases "check_edges es d") auto
  then show ?thesis
    unfolding bellman_ford_algorithm_def Let_def by (auto split: sum.splits)
qed

lemma bellman_ford_run_inv:
  assumes "bellman_ford_algorithm g s = Inr st"
  shows "run_inv (set (edges_of g)) s (init_predecessors g s) st"
  using assms run_inv_passes[of "length g - 1" "edges_of g" g s st] by (simp add: bellman_ford_Inr)


subsection \<open>Comparison, the end of a chain, and the sample runs\<close>

lemma dist_le_iff: "dist_le a b \<longleftrightarrow> \<not> dist_less b a"
  by (cases a; cases b) auto

lemma reconstruct_path_root:
  assumes "p t = Some None"
  shows "reconstruct_path p t = Some (Inr [t])"
  unfolding reconstruct_path_def
  by (subst reconstruct_loop.simps, simp add: assms, subst reconstruct_loop.simps, simp)

lemma sample_run:
  "\<exists>d p. bellman_ford_algorithm sample_graph ''A'' = Inr (d, p)"
  by (simp add: bellman_ford_algorithm_def sample_graph_def edges_of_def
      init_distances_def init_predecessors_def)

lemma island_run:
  "\<exists>d p. bellman_ford_algorithm island_graph ''A'' = Inr (d, p) \<and> d ''C'' = Some Inf"
  by (simp add: bellman_ford_algorithm_def island_graph_def edges_of_def
      init_distances_def init_predecessors_def)

subsection \<open>Walks without a repeated vertex\<close>









subsection \<open>What a number of passes reaches\<close>



subsection \<open>Runs under the precondition\<close>









subsection \<open>The predecessor links form a tree\<close>




lemma run_inv_unreached:
  assumes "run_inv E s p0 (d, p)" and "d v = Some Inf"
  shows "p v = Some None"
  using assms unfolding run_inv_def by simp












subsection \<open>A source that is not a key\<close>





subsection \<open>An edge to a vertex that has no entry\<close>





subsection \<open>The outcome of a call, case by case\<close>







subsection \<open>The same dict, whatever its insertion order\<close>







subsection \<open>The sample graphs\<close>





section \<open>The claims\<close>





text \<open>
  Claim C3. Whenever \<open>bellman_ford_algorithm(graph, source)\<close> returns, the returned
  distances are a fixed point of relaxation: for every edge \<open>(u, v, w)\<close> of the graph both
  ends have a distance and \<open>distances[v] \<le> distances[u] + w\<close>. This holds for every
  graph and source, so in particular under the key-completeness precondition.
\<close>

theorem fixed_point_postcondition:
  assumes "bellman_ford_algorithm g s = Inr (d, p)" and "(u, v, w) \<in> set (edges_of g)"
  shows "\<exists>du dv. d u = Some du \<and> d v = Some dv \<and> dist_le dv (dist_add du w)"
proof -
  from assms(1) have "settled (set (edges_of g)) d" by (simp add: bellman_ford_Inr)
  with assms(2) show ?thesis unfolding settled_def dist_le_iff by blast
qed

theorem fixed_point_postcondition_witness:
  "\<exists>d p. bellman_ford_algorithm sample_graph ''A'' = Inr (d, p) \<and>
     (''C'', ''B'', 1) \<in> set (edges_of sample_graph) \<and>
     (\<exists>du dv. d ''C'' = Some du \<and> d ''B'' = Some dv \<and> dist_le dv (dist_add du 1))"
proof -
  from sample_run obtain d p where run: "bellman_ford_algorithm sample_graph ''A'' = Inr (d, p)"
    by blast
  have mem: "(''C'', ''B'', 1) \<in> set (edges_of sample_graph)"
    by (simp add: sample_graph_def edges_of_def)
  from fixed_point_postcondition[OF run mem] run mem show ?thesis by blast
qed

text \<open>
  Claim C4, as stated: on the graph of the \<open>__main__\<close> block with source \<open>'A'\<close> the call
  returns the distances \<open>A=0, B=3, C=4, D=6, E=8\<close>. The code does not return these.
\<close>

theorem claimed_distances_counterexample:
  "\<not> (returned_distance (bellman_ford_algorithm sample_graph ''A'') ''A'' = Some (Fin 0) \<and>
      returned_distance (bellman_ford_algorithm sample_graph ''A'') ''B'' = Some (Fin 3) \<and>
      returned_distance (bellman_ford_algorithm sample_graph ''A'') ''C'' = Some (Fin 4) \<and>
      returned_distance (bellman_ford_algorithm sample_graph ''A'') ''D'' = Some (Fin 6) \<and>
      returned_distance (bellman_ford_algorithm sample_graph ''A'') ''E'' = Some (Fin 8))"
  by (simp add: returned_distance_def bellman_ford_algorithm_def sample_graph_def edges_of_def
      init_distances_def init_predecessors_def)

text \<open>
  Claim C4, amended: on the graph of the \<open>__main__\<close> block with source \<open>'A'\<close> the call
  returns the distances \<open>A=0, B=3, C=5, D=9, E=11\<close>.
\<close>

theorem sample_graph_distances:
  "returned_distance (bellman_ford_algorithm sample_graph ''A'') ''A'' = Some (Fin 0) \<and>
   returned_distance (bellman_ford_algorithm sample_graph ''A'') ''B'' = Some (Fin 3) \<and>
   returned_distance (bellman_ford_algorithm sample_graph ''A'') ''C'' = Some (Fin 5) \<and>
   returned_distance (bellman_ford_algorithm sample_graph ''A'') ''D'' = Some (Fin 9) \<and>
   returned_distance (bellman_ford_algorithm sample_graph ''A'') ''E'' = Some (Fin 11)"
  by (simp add: returned_distance_def bellman_ford_algorithm_def sample_graph_def edges_of_def
      init_distances_def init_predecessors_def)







text \<open>
  Claim C7. For the predecessors of a successful run and a target whose distance is
  \<open>+infinity\<close>, \<open>reconstruct_path(predecessors, target)\<close> terminates and returns the
  one-element list \<open>[target]\<close>; it signals nothing.
\<close>

theorem unreached_target_path:
  assumes "bellman_ford_algorithm g s = Inr (d, p)" and "d t = Some Inf"
  shows "reconstruct_path p t = Some (Inr [t])"
proof -
  from bellman_ford_run_inv[OF assms(1)] assms(2) have "p t = Some None"
    by (rule run_inv_unreached)
  then show ?thesis by (rule reconstruct_path_root)
qed

theorem unreached_target_path_witness:
  "\<exists>d p. bellman_ford_algorithm island_graph ''A'' = Inr (d, p) \<and> d ''C'' = Some Inf \<and>
     reconstruct_path p ''C'' = Some (Inr [''C''])"
proof -
  from island_run obtain d p where
    run: "bellman_ford_algorithm island_graph ''A'' = Inr (d, p)" and inf: "d ''C'' = Some Inf"
    by blast
  from unreached_target_path[OF run inf] run inf show ?thesis by blast
qed







end
